theory Spec2Isabelle
  imports Complex_Main "HOL-Library.AList"
begin

section \<open>Simulation results of a pulse sequence: data model\<close>

text \<open>
  The module \<^verbatim>\<open>pulser/simresults.py\<close> holds one class, \<^verbatim>\<open>SimulationResults\<close>, with the
  methods \<^verbatim>\<open>expect\<close> and \<^verbatim>\<open>sample_final_state\<close>. Exceptions are values of the type
  \<open>error\<close>. A \<^verbatim>\<open>ValueError\<close> records the statement that raised it: the two raises of
  \<^verbatim>\<open>sample_final_state\<close>, the raise of \<^verbatim>\<open>expect\<close>, or a call into numpy or qutip.
\<close>

datatype raised_at = Undefined_basis | Unknown_basis | Incompatible_shape | In_numpy | In_qutip

datatype error =
    TypeError
  | ValueError raised_at
  | NotImplementedError
  | IndexError
  | UnboundLocalError

text \<open>
  A state is a \<^verbatim>\<open>qutip.Qobj\<close> ket: its \<^verbatim>\<open>dims\<close> attribute (a pair of lists) and its column
  of complex amplitudes. The attribute \<^verbatim>\<open>size\<close> of the results is the field \<open>size_n\<close>.
\<close>

record qobj =
  dims :: "nat list \<times> nat list"
  amps :: "complex list"

record simulation_results =
  states :: "qobj list"
  dim :: nat
  size_n :: nat
  basis_name :: string
  meas_basis :: "string option"

section \<open>The numpy operations the module calls\<close>

text \<open>
  \<^verbatim>\<open>bin(num)[2:]\<close> for a positive \<open>num\<close>: the binary digits, most significant first,
  with no leading zero.
\<close>

fun bin_digits :: "nat \<Rightarrow> string" where
  "bin_digits n =
     (if n < 2 then [if n = 1 then CHR ''1'' else CHR ''0'']
      else bin_digits (n div 2) @ [if n mod 2 = 1 then CHR ''1'' else CHR ''0''])"

declare bin_digits.simps [simp del]

definition zfill :: "nat \<Rightarrow> string \<Rightarrow> string" where
  "zfill w s = replicate (w - length s) CHR ''0'' @ s"

text \<open>
  \<^verbatim>\<open>np.binary_repr(num, width)\<close> for \<open>num \<ge> 0\<close>: zero gives \<^verbatim>\<open>'0' * (width or 1)\<close>, a
  positive number its digits filled with zeros up to \<open>width\<close> (and never cut).
\<close>

definition binary_repr :: "nat \<Rightarrow> nat \<Rightarrow> string" where
  "binary_repr num width =
     (if num = 0 then replicate (if width = 0 then 1 else width) CHR ''0''
      else zfill (max (length (bin_digits num)) width) (bin_digits num))"

text \<open>
  An \<^verbatim>\<open>ndarray\<close> is its shape and its data in row-major (C) order. One component of an index
  tuple is an integer or a slice \<^verbatim>\<open>lo:hi\<close>.
\<close>

datatype index = Idx nat | Slice nat nat

definition reshape :: "nat list \<Rightarrow> 'a list \<Rightarrow> error + 'a list" where
  "reshape shp xs = (if prod_list shp = length xs then Inr xs else Inl (ValueError In_numpy))"

text \<open>The \<open>i\<close>-th sub-array along the first axis, the other axes having shape \<open>ds\<close>.\<close>

definition block :: "nat list \<Rightarrow> nat \<Rightarrow> 'a list \<Rightarrow> 'a list" where
  "block ds i xs = take (prod_list ds) (drop (i * prod_list ds) xs)"

text \<open>
  Basic indexing \<^verbatim>\<open>a[tuple(ind)]\<close>: more indices than axes, or an integer out of range,
  raise \<^verbatim>\<open>IndexError\<close>; a slice is clipped to the axis; axes without an index are taken
  whole. \<open>gather\<close> returns the data of the selected sub-array, in row-major order.
\<close>

fun index_ok :: "nat list \<Rightarrow> index list \<Rightarrow> bool" where
  "index_ok ds [] = True"
| "index_ok [] (i # ind) = False"
| "index_ok (d # ds) (Idx i # ind) = (i < d \<and> index_ok ds ind)"
| "index_ok (d # ds) (Slice lo hi # ind) = index_ok ds ind"

fun gather :: "nat list \<Rightarrow> index list \<Rightarrow> 'a list \<Rightarrow> 'a list" where
  "gather (d # ds) (Idx i # ind) xs = gather ds ind (block ds i xs)"
| "gather (d # ds) (Slice lo hi # ind) xs =
     concat (map (\<lambda>i. gather ds ind (block ds i xs)) [lo..<min hi d])"
| "gather ds ind xs = xs"

definition getitem :: "nat list \<Rightarrow> index list \<Rightarrow> 'a list \<Rightarrow> error + 'a list" where
  "getitem ds ind xs = (if index_ok ds ind then Inr (gather ds ind xs) else Inl IndexError)"

text \<open>
  The position, in the row-major data, of the entry at an index tuple of integers
  (\<^verbatim>\<open>np.ravel_multi_index\<close>).
\<close>

fun ravel_index :: "nat list \<Rightarrow> nat list \<Rightarrow> nat" where
  "ravel_index (d # ds) (i # t) = i * prod_list ds + ravel_index ds t"
| "ravel_index ds t = 0"

text \<open>\<^verbatim>\<open>np.nonzero(dist)[0]\<close>: the positions of the nonzero entries, ascending.\<close>

definition nonzero :: "nat list \<Rightarrow> nat list" where
  "nonzero distr = filter (\<lambda>i. distr ! i \<noteq> 0) [0..<length distr]"

text \<open>
  \<^verbatim>\<open>np.random.multinomial\<close> is not part of this module. It is a parameter \<open>draw\<close> of the
  model: the function of the number of samples and of the weights that the generator, in
  its current state, computes; \<open>None\<close> when numpy refuses its arguments (a
  \<^verbatim>\<open>ValueError\<close>). What numpy documents of it is \<open>multinomial_law\<close>: an outcome has one
  count per weight and the counts sum to the number of samples; when the weights sum to one,
  an entry of weight zero is never drawn; and the draw succeeds on a nonnegative number of
  samples and a nonempty vector of probabilities whose entries before the last sum to at
  most one.
\<close>

type_synonym multinomial = "int \<Rightarrow> real list \<Rightarrow> nat list option"

definition multinomial_law :: "multinomial \<Rightarrow> bool" where
  "multinomial_law draw \<longleftrightarrow>
     (\<forall>n ws d. draw n ws = Some d \<longrightarrow>
        length d = length ws \<and> int (sum_list d) = n \<and>
        (sum_list ws = 1 \<longrightarrow> (\<forall>i < length ws. ws ! i = 0 \<longrightarrow> d ! i = 0))) \<and>
     (\<forall>n ws. 0 \<le> n \<and> ws \<noteq> [] \<and> (\<forall>w \<in> set ws. 0 \<le> w \<and> w \<le> 1) \<and> sum_list (butlast ws) \<le> 1
        \<longrightarrow> draw n ws \<noteq> None)"

section \<open>sample_final_state\<close>

text \<open>Lines 88 to 99: the measurement basis of the call.\<close>

definition resolve_meas_basis :: "simulation_results \<Rightarrow> string option \<Rightarrow> error + string" where
  "resolve_meas_basis rs mb =
     (case (case mb of
              None \<Rightarrow> (case meas_basis rs of
                          None \<Rightarrow> Inl (ValueError Undefined_basis)
                        | Some b \<Rightarrow> Inr b)
            | Some b \<Rightarrow> Inr b) of
        Inl e \<Rightarrow> Inl e
      | Inr b \<Rightarrow>
          if b \<notin> {''ground-rydberg'', ''digital''} then Inl (ValueError Unknown_basis)
          else Inr b)"

text \<open>
  Line 102: \<^verbatim>\<open>probs = np.abs(self.states[-1])**2\<close>. An empty list of states raises
  \<^verbatim>\<open>IndexError\<close>. The squared magnitudes are real numbers: the rounding of floating-point
  arithmetic is not modelled.
\<close>

definition final_probs :: "simulation_results \<Rightarrow> error + real list" where
  "final_probs rs =
     (case states rs of
        [] \<Rightarrow> Inl IndexError
      | s # ss \<Rightarrow> Inr (map (\<lambda>z. (cmod z)\<^sup>2) (amps (last (states rs)))))"

text \<open>Lines 114 to 119: \<^verbatim>\<open>one_state\<close> and \<^verbatim>\<open>ex_one\<close>.\<close>

definition basis_levels :: "string \<Rightarrow> error + (nat \<times> index)" where
  "basis_levels b =
     (if b = ''ground-rydberg'' then Inr (0, Slice 1 3)
      else if b = ''digital'' then Inr (2, Slice 0 2)
      else Inl UnboundLocalError)"

text \<open>Lines 124 to 129: the index tuple of one value of \<^verbatim>\<open>dec_val\<close>.\<close>

definition index_tuple :: "nat \<Rightarrow> index \<Rightarrow> nat \<Rightarrow> nat \<Rightarrow> index list" where
  "index_tuple one_state ex_one N dec_val =
     map (\<lambda>v. if v = CHR ''0'' then ex_one else Idx one_state) (binary_repr dec_val N)"

text \<open>Lines 123 to 134: the loop over \<^verbatim>\<open>range(2**N)\<close>, stopped by the first exception.\<close>

fun weights_loop :: "nat \<Rightarrow> index \<Rightarrow> nat \<Rightarrow> real list \<Rightarrow> nat list \<Rightarrow> error + real list" where
  "weights_loop one_state ex_one N probs [] = Inr []"
| "weights_loop one_state ex_one N probs (dec_val # rest) =
     (case getitem (replicate N 3) (index_tuple one_state ex_one N dec_val) probs of
        Inl e \<Rightarrow> Inl e
      | Inr sel \<Rightarrow>
          (case weights_loop one_state ex_one N probs rest of
             Inl e \<Rightarrow> Inl e
           | Inr ws \<Rightarrow> Inr (sum_list sel # ws)))"

definition weights_dim3 :: "nat \<Rightarrow> string \<Rightarrow> real list \<Rightarrow> error + real list" where
  "weights_dim3 N b probs =
     (case basis_levels b of
        Inl e \<Rightarrow> Inl e
      | Inr (one_state, ex_one) \<Rightarrow>
          (case reshape (replicate N 3) probs of
             Inl e \<Rightarrow> Inl e
           | Inr tensor \<Rightarrow> weights_loop one_state ex_one N tensor [0..<2 ^ N]))"

text \<open>
  Line 141: the dictionary comprehension. A dictionary is an association list in insertion
  order; storing under a key already present replaces its value.
\<close>

definition sample_dict :: "nat \<Rightarrow> nat list \<Rightarrow> (string \<times> int) list" where
  "sample_dict N distr =
     foldl (\<lambda>d i. AList.update (binary_repr i N) (int (distr ! i)) d) [] (nonzero distr)"

text \<open>Lines 140 and 141.\<close>

definition draw_samples ::
  "multinomial \<Rightarrow> nat \<Rightarrow> int \<Rightarrow> real list \<Rightarrow> error + (string \<times> int) list" where
  "draw_samples draw N N_samples weights =
     (case draw N_samples weights of
        None \<Rightarrow> Inl (ValueError In_numpy)
      | Some distr \<Rightarrow> Inr (sample_dict N distr))"

text \<open>
  The weight table of lines 101 to 139, when the call reaches the draw; \<open>Inr None\<close> is the
  early return of line 110.
\<close>

definition weight_table :: "simulation_results \<Rightarrow> string \<Rightarrow> error + real list option" where
  "weight_table rs b =
     (case final_probs rs of
        Inl e \<Rightarrow> Inl e
      | Inr probs \<Rightarrow>
          if dim rs = 2 then
            (if b = basis_name rs
             then Inr (Some (if b = ''digital'' then probs else rev probs))
             else Inr None)
          else if dim rs = 3 then
            (case weights_dim3 (size_n rs) b probs of
               Inl e \<Rightarrow> Inl e
             | Inr ws \<Rightarrow> Inr (Some ws))
          else Inl NotImplementedError)"

definition sample_final_state ::
  "multinomial \<Rightarrow> simulation_results \<Rightarrow> string option \<Rightarrow> int \<Rightarrow> error + (string \<times> int) list" where
  "sample_final_state draw rs mb N_samples =
     (case resolve_meas_basis rs mb of
        Inl e \<Rightarrow> Inl e
      | Inr b \<Rightarrow>
          (case weight_table rs b of
             Inl e \<Rightarrow> Inl e
           | Inr None \<Rightarrow> Inr [(replicate (size_n rs) CHR ''0'', N_samples)]
           | Inr (Some weights) \<Rightarrow> draw_samples draw (size_n rs) N_samples weights))"

section \<open>expect\<close>

text \<open>
  An observable is a matrix object with a \<^verbatim>\<open>shape\<close> attribute (an \<^verbatim>\<open>np.ndarray\<close> or a
  \<^verbatim>\<open>qutip.Qobj\<close>); an operator is the observable with the two block dimensions that
  \<^verbatim>\<open>qutip.Qobj(obs, dims=dim_list)\<close> gives it. The argument \<^verbatim>\<open>obs_list\<close> is any Python
  value: a list; an \<^verbatim>\<open>np.ndarray\<close> of at least one dimension, iterated along its first
  axis; a 0-dimensional \<^verbatim>\<open>np.ndarray\<close> such as \<^verbatim>\<open>np.array(5)\<close>, which is an instance of
  \<^verbatim>\<open>np.ndarray\<close> but cannot be iterated; a tuple; or a value that is no sequence.
\<close>

record 'm observable =
  shape :: "nat list"
  matrix :: 'm

record 'm operator =
  operand :: "'m observable"
  op_dims :: "nat list \<times> nat list"

datatype 'm pyvalue =
    PyList "'m observable list"
  | PyNdarray "'m observable list"
  | PyNdarray0
  | PyTuple "'m observable list"
  | PyScalar

text \<open>
  The constructor \<^verbatim>\<open>qutip.Qobj\<close> is a parameter \<open>qutip_Qobj\<close> of the model. What is used of
  it is \<open>qobj_law\<close>: when the products of the two block dimensions are the two extents of
  the observable's shape, it returns the operator. Whether it accepts other dimensions, or
  raises, depends on the version of qutip and is left open.
\<close>

type_synonym 'm qobj_constructor =
  "'m observable \<Rightarrow> nat list \<times> nat list \<Rightarrow> error + 'm operator"

definition qobj_law :: "'m qobj_constructor \<Rightarrow> bool" where
  "qobj_law qutip_Qobj \<longleftrightarrow>
     (\<forall>obs dl. shape obs = [prod_list (fst dl), prod_list (snd dl)] \<longrightarrow>
        qutip_Qobj obs dl = Inr \<lparr>operand = obs, op_dims = dl\<rparr>)"

text \<open>
  Lines 60 to 66: the loop that checks and wraps each observable. It stops at the first
  exception: the raise of line 63, \<^verbatim>\<open>self.states[0]\<close> on an empty list, or the constructor.
\<close>

fun qobj_list ::
  "'m qobj_constructor \<Rightarrow> simulation_results \<Rightarrow> 'm observable list \<Rightarrow> error + 'm operator list" where
  "qobj_list qutip_Qobj rs [] = Inr []"
| "qobj_list qutip_Qobj rs (obs # rest) =
     (if shape obs \<noteq> [dim rs ^ size_n rs, dim rs ^ size_n rs]
      then Inl (ValueError Incompatible_shape)
      else (case states rs of
              [] \<Rightarrow> Inl IndexError
            | s0 # ss \<Rightarrow>
                (case qutip_Qobj obs (fst (dims s0), fst (dims s0)) of
                   Inl e \<Rightarrow> Inl e
                 | Inr q \<Rightarrow>
                     (case qobj_list qutip_Qobj rs rest of
                        Inl e \<Rightarrow> Inl e
                      | Inr qs \<Rightarrow> Inr (q # qs)))))"

text \<open>
  Line 68. \<^verbatim>\<open>qutip.expect\<close> of one operator and one state is the parameter \<open>qutip_expect\<close>;
  on a list of states it gives one value per state.
\<close>

definition expect_values ::
  "'m qobj_constructor \<Rightarrow> ('m operator \<Rightarrow> qobj \<Rightarrow> 'v) \<Rightarrow> simulation_results \<Rightarrow>
   'm observable list \<Rightarrow> error + 'v list list" where
  "expect_values qutip_Qobj qutip_expect rs obs_list =
     (case qobj_list qutip_Qobj rs obs_list of
        Inl e \<Rightarrow> Inl e
      | Inr qs \<Rightarrow> Inr (map (\<lambda>q. map (qutip_expect q) (states rs)) qs))"

text \<open>
  Lines 57 to 68. A tuple and a value that is no sequence fail the test of line 57; a
  0-dimensional \<^verbatim>\<open>np.ndarray\<close> passes it and the \<^verbatim>\<open>for\<close> of line 61 raises \<^verbatim>\<open>TypeError\<close>
  (iteration over a 0-d array).
\<close>

definition expect ::
  "'m qobj_constructor \<Rightarrow> ('m operator \<Rightarrow> qobj \<Rightarrow> 'v) \<Rightarrow> simulation_results \<Rightarrow>
   'm pyvalue \<Rightarrow> error + 'v list list" where
  "expect qutip_Qobj qutip_expect rs obs_list =
     (case obs_list of
        PyList os \<Rightarrow> expect_values qutip_Qobj qutip_expect rs os
      | PyNdarray os \<Rightarrow> expect_values qutip_Qobj qutip_expect rs os
      | PyNdarray0 \<Rightarrow> Inl TypeError
      | PyTuple os \<Rightarrow> Inl TypeError
      | PyScalar \<Rightarrow> Inl TypeError)"

section \<open>Notions used in the statements\<close>

text \<open>
  The width-\<open>n\<close> big-endian binary expansion of \<open>k\<close>: the character at position \<open>j\<close>
  is the bit of weight \<open>2 ^ (n - 1 - j)\<close>.
\<close>

fun be_bits :: "nat \<Rightarrow> nat \<Rightarrow> string" where
  "be_bits 0 k = []"
| "be_bits (Suc n) k = (if odd (k div 2 ^ n) then CHR ''1'' else CHR ''0'') # be_bits n k"

text \<open>The positions that one index component selects on an axis of extent \<open>d\<close>.\<close>

fun expand :: "nat \<Rightarrow> index \<Rightarrow> nat list" where
  "expand d (Idx i) = [i]"
| "expand d (Slice lo hi) = [lo..<min hi d]"

text \<open>
  The three levels of an atom, by their index on an axis of the state tensor. The source
  names them in its comments: \<^verbatim>\<open>one_state = 0  # 1 = |r>\<close>, \<^verbatim>\<open>one_state = 2  # 1 = |h>\<close>.
\<close>

definition rydberg :: nat where "rydberg = 0"
definition ground :: nat where "ground = 1"
definition hyperfine :: nat where "hyperfine = 2"

text \<open>
  Following the claim's words: the logical-1 level of a measurement basis, the two
  complementary logical-0 levels, and the index tuples of bitstring \<open>k\<close>.
\<close>

definition logical_one :: "string \<Rightarrow> nat" where
  "logical_one b = (if b = ''ground-rydberg'' then rydberg else hyperfine)"

definition logical_zero :: "string \<Rightarrow> nat set" where
  "logical_zero b = {rydberg, ground, hyperfine} - {logical_one b}"

definition level_tuples :: "nat \<Rightarrow> string \<Rightarrow> nat \<Rightarrow> nat list set" where
  "level_tuples N b k =
     {t. length t = N \<and>
         (\<forall>j < N. if bit k (N - 1 - j) then t ! j = logical_one b else t ! j \<in> logical_zero b)}"

text \<open>Following the claim's words: an array-like sequence, a tuple included.\<close>

fun array_like :: "'m pyvalue \<Rightarrow> bool" where
  "array_like (PyList os) = True"
| "array_like (PyNdarray os) = True"
| "array_like PyNdarray0 = False"
| "array_like (PyTuple os) = True"
| "array_like PyScalar = False"

text \<open>The basis of a call: the argument, or the stored default when the argument is omitted.\<close>

definition resolved :: "simulation_results \<Rightarrow> string option \<Rightarrow> string option" where
  "resolved rs mb = (case mb of None \<Rightarrow> meas_basis rs | Some b \<Rightarrow> Some b)"

section \<open>Concrete inputs\<close>

text \<open>
  A generator that draws every sample on the first entry of nonzero weight (on the last
  entry when there is none).
\<close>

definition first_draw :: multinomial where
  "first_draw n ws =
     (if n < 0 \<or> ws = [] then None
      else Some ((replicate (length ws) 0)
        [(case find (\<lambda>i. ws ! i \<noteq> 0) [0..<length ws] of
            None \<Rightarrow> length ws - 1 | Some i \<Rightarrow> i) := nat n]))"

definition ket :: "complex list \<Rightarrow> qobj" where
  "ket zs = \<lparr>dims = ([length zs], [1]), amps = zs\<rparr>"

definition results :: "complex list \<Rightarrow> nat \<Rightarrow> nat \<Rightarrow> string \<Rightarrow> simulation_results" where
  "results zs d n bn =
     \<lparr>states = [ket zs], dim = d, size_n = n, basis_name = bn, meas_basis = None\<rparr>"

definition obs_of_shape :: "nat list \<Rightarrow> unit observable" where
  "obs_of_shape shp = \<lparr>shape = shp, matrix = ()\<rparr>"

definition zero_expect :: "unit operator \<Rightarrow> qobj \<Rightarrow> complex" where
  "zero_expect q s = 0"

text \<open>A constructor that refuses block dimensions that do not fit the shape.\<close>

definition strict_Qobj :: "unit qobj_constructor" where
  "strict_Qobj obs dl =
     (if shape obs = [prod_list (fst dl), prod_list (snd dl)]
      then Inr \<lparr>operand = obs, op_dims = dl\<rparr>
      else Inl (ValueError In_qutip))"

section \<open>Binary expansions and array indexing\<close>

lemma length_be_bits [simp]: "length (be_bits n k) = n"
  by (induction n) auto

lemma be_bits_snoc:
  "be_bits (Suc n) k = be_bits n (k div 2) @ [if odd k then CHR ''1'' else CHR ''0'']"
proof (induction n)
  case 0
  show ?case by simp
next
  case (Suc n)
  have "k div 2 div 2 ^ n = k div 2 ^ Suc n"
    by (simp add: div_mult2_eq)
  with Suc show ?case by simp
qed

lemma be_bits_zero: "be_bits n 0 = replicate n CHR ''0''"
  by (induction n) auto

lemma bin_digits_one: "bin_digits (Suc 0) = ''1''"
  by (subst bin_digits.simps) simp

lemma zfill_bin_digits:
  "0 < k \<Longrightarrow> k < 2 ^ n \<Longrightarrow> length (bin_digits k) \<le> n \<and> zfill n (bin_digits k) = be_bits n k"
proof (induction k arbitrary: n rule: bin_digits.induct)
  case (1 k)
  from "1.prems" obtain m where n: "n = Suc m" by (cases n) auto
  show ?case
  proof (cases "k < 2")
    case True
    with "1.prems" have k: "k = 1" by simp
    show ?thesis
      unfolding n k by (simp add: bin_digits_one zfill_def be_bits_snoc be_bits_zero del: be_bits.simps)
  next
    case False
    then have pos: "0 < k div 2" by simp
    from "1.prems" n have lt: "k div 2 < 2 ^ m" by simp
    from "1.IH"[OF False pos lt] have
      len: "length (bin_digits (k div 2)) \<le> m" and
      eq: "zfill m (bin_digits (k div 2)) = be_bits m (k div 2)" by auto
    have bd: "bin_digits k = bin_digits (k div 2) @ [if k mod 2 = 1 then CHR ''1'' else CHR ''0'']"
      using False by (subst bin_digits.simps) simp
    show ?thesis
      unfolding n be_bits_snoc bd using len eq
      by (auto simp: zfill_def odd_iff_mod_2_eq_one)
  qed
qed

lemma binary_repr_be_bits:
  assumes "0 < n" "k < 2 ^ n"
  shows "binary_repr k n = be_bits n k"
proof (cases "k = 0")
  case True
  with assms show ?thesis by (simp add: binary_repr_def be_bits_zero)
next
  case False
  with zfill_bin_digits[of k n] assms show ?thesis
    by (simp add: binary_repr_def max_def)
qed

lemma length_block:
  "i < d \<Longrightarrow> length xs = d * prod_list ds \<Longrightarrow> length (block ds i xs) = prod_list ds"
proof -
  assume a: "i < d" "length xs = d * prod_list ds"
  then have "Suc i \<le> d" by simp
  then have "Suc i * prod_list ds \<le> d * prod_list ds" by (rule mult_le_mono1)
  with a show ?thesis by (simp add: block_def)
qed

lemma nth_block:
  "r < prod_list ds \<Longrightarrow> i < d \<Longrightarrow> length xs = d * prod_list ds \<Longrightarrow>
   block ds i xs ! r = xs ! (i * prod_list ds + r)"
proof -
  assume a: "r < prod_list ds" "i < d" "length xs = d * prod_list ds"
  then have "Suc i \<le> d" by simp
  then have "Suc i * prod_list ds \<le> d * prod_list ds" by (rule mult_le_mono1)
  with a show ?thesis by (simp add: block_def)
qed

lemma ravel_index_less:
  "list_all2 (<) t ds \<Longrightarrow> ravel_index ds t < prod_list ds"
proof (induction t ds rule: list_all2_induct)
  case Nil
  show ?case by simp
next
  case (Cons i t d ds)
  from Cons have "Suc i \<le> d" by simp
  then have "Suc i * prod_list ds \<le> d * prod_list ds" by (rule mult_le_mono1)
  with Cons show ?case by simp
qed

lemma product_lists_in_range:
  "length ind = length ds \<Longrightarrow> index_ok ds ind \<Longrightarrow>
   t \<in> set (product_lists (map2 expand ds ind)) \<Longrightarrow> list_all2 (<) t ds"
proof (induction ds arbitrary: ind t)
  case Nil
  then show ?case by simp
next
  case (Cons d ds)
  then obtain x ind' where ind: "ind = x # ind'" by (cases ind) auto
  with Cons.prems show ?case
    by (cases x) (auto dest: Cons.IH)
qed

lemma gather_product_lists:
  "length ind = length ds \<Longrightarrow> index_ok ds ind \<Longrightarrow> length xs = prod_list ds \<Longrightarrow>
   gather ds ind xs = map (\<lambda>t. xs ! ravel_index ds t) (product_lists (map2 expand ds ind))"
proof (induction ds arbitrary: ind xs)
  case Nil
  then show ?case by (cases xs) auto
next
  case (Cons d ds)
  then obtain x ind' where ind: "ind = x # ind'" by (cases ind) auto
  with Cons.prems have len: "length ind' = length ds" and ok: "index_ok ds ind'"
    by (cases x; simp)+
  have lenxs: "length xs = d * prod_list ds" using Cons.prems by simp
  have blk: "gather ds ind' (block ds i xs) =
      map (\<lambda>t. xs ! ravel_index (d # ds) (i # t)) (product_lists (map2 expand ds ind'))"
    if "i < d" for i
  proof -
    have "gather ds ind' (block ds i xs) =
      map (\<lambda>t. block ds i xs ! ravel_index ds t) (product_lists (map2 expand ds ind'))"
      by (rule Cons.IH[OF len ok length_block[OF that lenxs]])
    also have "\<dots> = map (\<lambda>t. xs ! ravel_index (d # ds) (i # t)) (product_lists (map2 expand ds ind'))"
    proof (rule map_cong[OF refl])
      fix t assume "t \<in> set (product_lists (map2 expand ds ind'))"
      then have "ravel_index ds t < prod_list ds"
        by (intro ravel_index_less product_lists_in_range[OF len ok])
      then show "block ds i xs ! ravel_index ds t = xs ! ravel_index (d # ds) (i # t)"
        by (simp add: nth_block[OF _ that lenxs])
    qed
    finally show ?thesis .
  qed
  show ?case
  proof (cases x)
    case (Idx i)
    with Cons.prems ind have "i < d" by simp
    from blk[OF this] show ?thesis
      unfolding ind Idx by (simp add: comp_def)
  next
    case (Slice lo hi)
    have "gather (d # ds) ind xs =
       concat (map (\<lambda>i. map (\<lambda>t. xs ! ravel_index (d # ds) (i # t))
                 (product_lists (map2 expand ds ind'))) [lo..<min hi d])"
      unfolding ind Slice gather.simps
      by (rule arg_cong[where f = concat], rule map_cong[OF refl]) (simp add: blk)
    then show ?thesis
      unfolding ind Slice by (simp add: map_concat comp_def)
  qed
qed

lemma nth_be_bits:
  "j < n \<Longrightarrow> be_bits n k ! j = (if bit k (n - 1 - j) then CHR ''1'' else CHR ''0'')"
proof (induction n arbitrary: j)
  case 0
  then show ?case by simp
next
  case (Suc n)
  show ?case
  proof (cases j)
    case 0
    then show ?thesis by (simp add: bit_iff_odd)
  next
    case (Suc i)
    with Suc.prems have "i < n" by simp
    from Suc.IH[OF this] Suc show ?thesis by simp
  qed
qed

lemma index_tuple_be_bits:
  "0 < N \<Longrightarrow> k < 2 ^ N \<Longrightarrow>
   index_tuple one_state ex_one N k =
   map (\<lambda>v. if v = CHR ''0'' then ex_one else Idx one_state) (be_bits N k)"
  by (simp add: index_tuple_def binary_repr_be_bits)

lemma index_ok_bits:
  "one_state < 3 \<Longrightarrow>
   index_ok (replicate (length bs) 3)
     (map (\<lambda>v. if v = CHR ''0'' then Slice lo hi else Idx one_state) bs)"
  by (induction bs) auto

lemma getitem_index_tuple:
  assumes "0 < N" "k < 2 ^ N" "one_state < 3"
  shows "getitem (replicate N 3) (index_tuple one_state (Slice lo hi) N k) xs =
         Inr (gather (replicate N 3) (index_tuple one_state (Slice lo hi) N k) xs)"
proof -
  have "index_ok (replicate (length (be_bits N k)) 3)
     (map (\<lambda>v. if v = CHR ''0'' then Slice lo hi else Idx one_state) (be_bits N k))"
    by (rule index_ok_bits[OF assms(3)])
  then show ?thesis
    by (simp add: getitem_def index_tuple_be_bits[OF assms(1,2)])
qed

lemma weights_loop_total:
  assumes "0 < N" "one_state < 3" "\<forall>k \<in> set ks. k < 2 ^ N"
  shows "weights_loop one_state (Slice lo hi) N xs ks =
         Inr (map (\<lambda>k. sum_list (gather (replicate N 3) (index_tuple one_state (Slice lo hi) N k) xs)) ks)"
  using assms(3)
proof (induction ks)
  case Nil
  show ?case by simp
next
  case (Cons k ks)
  then show ?case
    by (simp add: getitem_index_tuple[OF assms(1) _ assms(2)])
qed

lemma selected_tuples:
  assumes "0 < N" "k < 2 ^ N" "{lo..<min hi 3} = logical_zero b"
  shows "set (product_lists (map2 expand (replicate N 3) (index_tuple (logical_one b) (Slice lo hi) N k)))
         = level_tuples N b k"
proof -
  define xss where
    "xss = map2 expand (replicate N 3) (index_tuple (logical_one b) (Slice lo hi) N k)"
  have len: "length xss = N"
    by (simp add: xss_def index_tuple_be_bits[OF assms(1,2)])
  have nth: "set (xss ! j) = (if bit k (N - 1 - j) then {logical_one b} else logical_zero b)"
    if "j < N" for j
    using that assms(3) by (simp add: xss_def index_tuple_be_bits[OF assms(1,2)] nth_be_bits)
  have "t \<in> set (product_lists xss) \<longleftrightarrow> t \<in> level_tuples N b k" for t
  proof (cases "length t = N")
    case False
    then show ?thesis
      by (simp add: product_lists_set level_tuples_def list_all2_conv_all_nth len)
  next
    case True
    have "(\<forall>j < N. t ! j \<in> set (xss ! j)) \<longleftrightarrow>
          (\<forall>j < N. if bit k (N - 1 - j) then t ! j = logical_one b else t ! j \<in> logical_zero b)"
      by (intro all_cong) (simp add: nth)
    with True show ?thesis
      by (simp add: product_lists_set level_tuples_def list_all2_conv_all_nth len)
  qed
  then show ?thesis unfolding xss_def by blast
qed

lemma distinct_selected:
  "distinct (product_lists (map2 expand (replicate N 3) (index_tuple one_state (Slice lo hi) N k)))"
proof (rule distinct_product_lists)
  show "\<forall>xs \<in> set (map2 expand (replicate N 3) (index_tuple one_state (Slice lo hi) N k)). distinct xs"
    by (auto simp: index_tuple_def set_zip)
qed

lemma weight_as_sum:
  assumes "0 < N" "k < 2 ^ N" "{lo..<min hi 3} = logical_zero b" "logical_one b < 3"
    "length xs = 3 ^ N"
  shows "sum_list (gather (replicate N 3) (index_tuple (logical_one b) (Slice lo hi) N k) xs) =
         (\<Sum>t \<in> level_tuples N b k. xs ! ravel_index (replicate N 3) t)"
proof -
  let ?ind = "index_tuple (logical_one b) (Slice lo hi) N k"
  have ind: "?ind = map (\<lambda>v. if v = CHR ''0'' then Slice lo hi else Idx (logical_one b)) (be_bits N k)"
    by (rule index_tuple_be_bits[OF assms(1,2)])
  have len: "length ?ind = length (replicate N 3)"
    by (simp add: ind)
  have ok: "index_ok (replicate N 3) ?ind"
    using index_ok_bits[OF assms(4), of "be_bits N k" lo hi] by (simp add: ind)
  have "gather (replicate N 3) ?ind xs =
        map (\<lambda>t. xs ! ravel_index (replicate N 3) t) (product_lists (map2 expand (replicate N 3) ?ind))"
    by (rule gather_product_lists[OF len ok]) (simp add: assms(5) prod_list_replicate)
  then show ?thesis
    by (simp only: sum_list_distinct_conv_sum_set[OF distinct_selected] selected_tuples[OF assms(1-3)])
qed

lemma be_bits_low: "k < 2 ^ n \<Longrightarrow> be_bits (Suc n) k = CHR ''0'' # be_bits n k"
  by simp

lemma be_bits_shift: "be_bits n (2 ^ m * c + k) = be_bits n k" if "n \<le> m"
  using that
proof (induction n)
  case 0
  show ?case by simp
next
  case (Suc n)
  then obtain e where m: "m = Suc (n + e)" by (metis Suc_le_D add.commute le_Suc_ex add_Suc_right)
  have e: "2 ^ m * c + k = k + 2 ^ n * (2 * (2 ^ e * c))"
    unfolding m by (simp add: power_add mult.assoc mult.left_commute)
  have "(k + 2 ^ n * (2 * (2 ^ e * c))) div 2 ^ n = 2 * (2 ^ e * c) + k div 2 ^ n"
    by simp
  then have "(2 ^ m * c + k) div 2 ^ n = 2 * (2 ^ e * c) + k div 2 ^ n"
    by (simp only: e)
  then have "odd ((2 ^ m * c + k) div 2 ^ n) \<longleftrightarrow> odd (k div 2 ^ n)"
    by simp
  with Suc show ?case by simp
qed

lemma be_bits_high: "k < 2 ^ n \<Longrightarrow> be_bits (Suc n) (k + 2 ^ n) = CHR ''1'' # be_bits n k"
  using be_bits_shift[of n n 1 k] by (simp add: add.commute)

lemma sum_over_bits_Suc:
  fixes F :: "string \<Rightarrow> 'a::comm_monoid_add"
  shows "sum_list (map (\<lambda>k. F (be_bits (Suc n) k)) [0..<2 ^ Suc n]) =
         sum_list (map (\<lambda>k. F (CHR ''0'' # be_bits n k)) [0..<2 ^ n]) +
         sum_list (map (\<lambda>k. F (CHR ''1'' # be_bits n k)) [0..<2 ^ n])"
proof -
  have split: "[0..<2 ^ Suc n] = [0..<2 ^ n] @ map (\<lambda>k. k + 2 ^ n) [0..<2 ^ n]"
    using upt_add_eq_append[of 0 "2 ^ n" "2 ^ n"] by (simp add: map_add_upt mult_2)
  have lo: "map (\<lambda>k. F (be_bits (Suc n) k)) [0..<2 ^ n] =
            map (\<lambda>k. F (CHR ''0'' # be_bits n k)) [0..<2 ^ n]"
    by (rule map_cong[OF refl]) (simp add: be_bits_low del: be_bits.simps)
  have hi: "map (\<lambda>k. F (be_bits (Suc n) (k + 2 ^ n))) [0..<2 ^ n] =
            map (\<lambda>k. F (CHR ''1'' # be_bits n k)) [0..<2 ^ n]"
    by (rule map_cong[OF refl]) (simp add: be_bits_high del: be_bits.simps)
  show ?thesis
    unfolding split by (simp add: lo hi comp_def del: be_bits.simps power_Suc)
qed

lemma sum_list_blocks:
  fixes xs :: "'a::comm_monoid_add list"
  assumes "length xs = 3 * prod_list ds"
  shows "sum_list (block ds 0 xs) + sum_list (block ds 1 xs) + sum_list (block ds 2 xs) = sum_list xs"
proof -
  define P where "P = prod_list ds"
  have a: "take P xs @ drop P xs = xs" by (rule append_take_drop_id)
  have b: "take P (drop P xs) @ drop P (drop P xs) = drop P xs" by (rule append_take_drop_id)
  have c: "take P (drop (2 * P) xs) = drop P (drop P xs)"
    using assms by (simp add: P_def mult_2)
  have "sum_list (take P xs @ (take P (drop P xs) @ take P (drop (2 * P) xs))) = sum_list xs"
    by (simp only: c b a)
  then have "sum_list xs = sum_list (take P xs) + sum_list (take P (drop P xs)) +
      sum_list (take P (drop (2 * P) xs))"
    by (simp add: add.assoc)
  then show ?thesis by (simp add: block_def P_def)
qed

lemma weights_partition:
  fixes xs :: "'a::comm_monoid_add list"
  assumes sel: "(one_state, lo, hi) \<in> {(0, 1, 3), (2, 0, 2)}"
  shows "length xs = 3 ^ n \<Longrightarrow>
    sum_list (map (\<lambda>k. sum_list (gather (replicate n 3)
        (map (\<lambda>v. if v = CHR ''0'' then Slice lo hi else Idx one_state) (be_bits n k)) xs))
      [0..<2 ^ n]) = sum_list xs"
proof (induction n arbitrary: xs)
  case 0
  then show ?case by simp
next
  case (Suc n)
  let ?sel = "\<lambda>v. if v = CHR ''0'' then Slice lo hi else Idx one_state"
  let ?G = "\<lambda>ys. sum_list (map (\<lambda>k. sum_list (gather (replicate n 3) (map ?sel (be_bits n k)) ys)) [0..<2 ^ n])"
  have len: "length xs = 3 * prod_list (replicate n (3::nat))"
    using Suc.prems by (simp add: prod_list_replicate)
  have blk: "?G (block (replicate n 3) i xs) = sum_list (block (replicate n 3) i xs)" if "i < 3" for i
    by (rule Suc.IH) (use length_block[OF that len] in \<open>simp add: prod_list_replicate\<close>)
  have "sum_list (map (\<lambda>k. sum_list (gather (replicate (Suc n) 3) (map ?sel (be_bits (Suc n) k)) xs))
          [0..<2 ^ Suc n]) =
        sum_list (map (\<lambda>k. sum_list (gather (replicate (Suc n) 3) (map ?sel (CHR ''0'' # be_bits n k)) xs)) [0..<2 ^ n]) +
        sum_list (map (\<lambda>k. sum_list (gather (replicate (Suc n) 3) (map ?sel (CHR ''1'' # be_bits n k)) xs)) [0..<2 ^ n])"
    by (rule sum_over_bits_Suc[where F = "\<lambda>bs. sum_list (gather (replicate (Suc n) 3) (map ?sel bs) xs)"])
  also have "\<dots> = sum_list (block (replicate n 3) 0 xs) + sum_list (block (replicate n 3) 1 xs) +
        sum_list (block (replicate n 3) 2 xs)"
  proof -
    from sel consider "one_state = 0" "lo = 1" "hi = 3" | "one_state = 2" "lo = 0" "hi = 2" by auto
    then show ?thesis
    proof cases
      case 1
      have upt: "[Suc 0..<3] = [Suc 0, 2]" by (simp add: upt_rec)
      show ?thesis
        using blk[of 0] blk[of 1] blk[of 2]
        by (simp add: 1 upt sum_list_addf add.commute add.left_commute del: be_bits.simps)
    next
      case 2
      have upt: "[0..<2] = [0, 1::nat]" by (simp add: upt_rec)
      show ?thesis
        using blk[of 0] blk[of 1] blk[of 2]
        by (simp add: 2 upt sum_list_addf add.commute add.left_commute del: be_bits.simps)
    qed
  qed
  also have "\<dots> = sum_list xs" by (rule sum_list_blocks[OF len])
  finally show ?case .
qed

section \<open>The stages of sample_final_state\<close>

lemma resolve_meas_basis_Inr:
  "resolve_meas_basis rs mb = Inr b \<longleftrightarrow>
   resolved rs mb = Some b \<and> b \<in> {''ground-rydberg'', ''digital''}"
  unfolding resolve_meas_basis_def resolved_def
  by (simp split: option.splits) blast

lemma resolve_meas_basis_Inl:
  "resolve_meas_basis rs mb = Inl e \<longleftrightarrow>
   (e = ValueError Undefined_basis \<and> mb = None \<and> meas_basis rs = None) \<or>
   (e = ValueError Unknown_basis \<and>
    (\<exists>b. resolved rs mb = Some b \<and> b \<notin> {''ground-rydberg'', ''digital''}))"
  unfolding resolve_meas_basis_def resolved_def
  by (auto split: option.splits)

lemma final_probs_nonempty:
  "states rs \<noteq> [] \<Longrightarrow> final_probs rs = Inr (map (\<lambda>z. (cmod z)\<^sup>2) (amps (last (states rs))))"
  by (cases "states rs") (simp_all add: final_probs_def)

lemma weights_loop_error:
  "weights_loop one_state ex_one N xs ks = Inl e \<Longrightarrow> e = IndexError"
  by (induction ks arbitrary: e)
     (auto simp: getitem_def split: sum.splits if_splits)

lemma weight_table_error:
  "weight_table rs b = Inl e \<Longrightarrow>
   e \<in> {IndexError, NotImplementedError, UnboundLocalError, ValueError In_numpy}"
  unfolding weight_table_def weights_dim3_def final_probs_def basis_levels_def reshape_def
  by (auto split: list.splits sum.splits if_splits dest: weights_loop_error)

lemma sample_after_resolve_error:
  "resolve_meas_basis rs mb = Inr b \<Longrightarrow> sample_final_state draw rs mb n = Inl e \<Longrightarrow>
   e \<in> {IndexError, NotImplementedError, UnboundLocalError, ValueError In_numpy}"
  unfolding sample_final_state_def draw_samples_def
  by (auto split: sum.splits option.splits dest: weight_table_error)

lemma final_probs_basis_name: "final_probs (rs\<lparr>basis_name := bn\<rparr>) = final_probs rs"
  by (simp add: final_probs_def split: list.splits)

section \<open>The loop of expect\<close>

lemma strict_Qobj_law: "qobj_law strict_Qobj"
  by (simp add: qobj_law_def strict_Qobj_def)

lemma qobj_list_bad_shape:
  assumes "states rs \<noteq> []" and "qobj_law qutip_Qobj"
    and "prod_list (fst (dims (hd (states rs)))) = dim rs ^ size_n rs"
  shows "\<exists>obs \<in> set os. shape obs \<noteq> [dim rs ^ size_n rs, dim rs ^ size_n rs] \<Longrightarrow>
         qobj_list qutip_Qobj rs os = Inl (ValueError Incompatible_shape)"
proof (induction os)
  case Nil
  then show ?case by simp
next
  case (Cons obs os)
  from assms(1) obtain s0 ss where st: "states rs = s0 # ss" by (cases "states rs") auto
  show ?case
  proof (cases "shape obs = [dim rs ^ size_n rs, dim rs ^ size_n rs]")
    case True
    with Cons.prems have "\<exists>obs \<in> set os. shape obs \<noteq> [dim rs ^ size_n rs, dim rs ^ size_n rs]"
      by auto
    from Cons.IH[OF this] have rest: "qobj_list qutip_Qobj rs os = Inl (ValueError Incompatible_shape)" .
    from assms(3) True have "shape obs = [prod_list (fst (fst (dims s0), fst (dims s0))),
        prod_list (snd (fst (dims s0), fst (dims s0)))]"
      by (simp add: st)
    with assms(2) have "qutip_Qobj obs (fst (dims s0), fst (dims s0)) =
        Inr \<lparr>operand = obs, op_dims = (fst (dims s0), fst (dims s0))\<rparr>"
      unfolding qobj_law_def by blast
    with True rest show ?thesis by (simp add: st)
  next
    case False
    then show ?thesis by simp
  qed
qed

lemma qobj_list_good_shape:
  assumes "states rs \<noteq> []" and "qobj_law qutip_Qobj"
    and "prod_list (fst (dims (hd (states rs)))) = dim rs ^ size_n rs"
  shows "\<forall>obs \<in> set os. shape obs = [dim rs ^ size_n rs, dim rs ^ size_n rs] \<Longrightarrow>
         qobj_list qutip_Qobj rs os =
         Inr (map (\<lambda>obs. \<lparr>operand = obs,
                op_dims = (fst (dims (hd (states rs))), fst (dims (hd (states rs))))\<rparr>) os)"
proof (induction os)
  case Nil
  show ?case by simp
next
  case (Cons obs os)
  from assms(1) obtain s0 ss where st: "states rs = s0 # ss" by (cases "states rs") auto
  from Cons.prems have good: "shape obs = [dim rs ^ size_n rs, dim rs ^ size_n rs]" by simp
  with assms(3) have "shape obs = [prod_list (fst (fst (dims s0), fst (dims s0))),
      prod_list (snd (fst (dims s0), fst (dims s0)))]"
    by (simp add: st)
  with assms(2) have "qutip_Qobj obs (fst (dims s0), fst (dims s0)) =
      Inr \<lparr>operand = obs, op_dims = (fst (dims s0), fst (dims s0))\<rparr>"
    unfolding qobj_law_def by blast
  with Cons good show ?case by (simp add: st)
qed

section \<open>The weight table for three levels\<close>

lemma weights_dim3_total:
  assumes "b \<in> {''ground-rydberg'', ''digital''}" and "0 < N" and "length xs = 3 ^ N"
  obtains lo hi where
    "{lo..<min hi 3} = logical_zero b"
    "(logical_one b, lo, hi) \<in> {(0, 1, 3), (2, 0, 2)}"
    "weights_dim3 N b xs =
       Inr (map (\<lambda>k. sum_list (gather (replicate N 3)
                     (index_tuple (logical_one b) (Slice lo hi) N k) xs)) [0..<2 ^ N])"
proof -
  from assms(1) consider "b = ''ground-rydberg''" | "b = ''digital''" by auto
  then show ?thesis
  proof cases
    case 1
    show ?thesis
    proof (rule that[of 1 3])
      show "{1..<min 3 3} = logical_zero b"
        unfolding 1 by (auto simp: logical_zero_def logical_one_def rydberg_def ground_def hyperfine_def)
      show "(logical_one b, 1, 3) \<in> {(0, 1, 3), (2, 0, 2)}"
        by (simp add: 1 logical_one_def rydberg_def)
      have "logical_one b = 0" by (simp add: 1 logical_one_def rydberg_def)
      then show "weights_dim3 N b xs =
          Inr (map (\<lambda>k. sum_list (gather (replicate N 3)
                     (index_tuple (logical_one b) (Slice 1 3) N k) xs)) [0..<2 ^ N])"
        using assms(3) weights_loop_total[OF assms(2), of 0 "[0..<2 ^ N]" 1 3 xs]
        by (simp add: weights_dim3_def basis_levels_def 1 reshape_def prod_list_replicate)
    qed
  next
    case 2
    show ?thesis
    proof (rule that[of 0 2])
      show "{0..<min 2 3} = logical_zero b"
        unfolding 2 by (auto simp: logical_zero_def logical_one_def rydberg_def ground_def hyperfine_def)
      show "(logical_one b, 0, 2) \<in> {(0, 1, 3), (2, 0, 2)}"
        by (simp add: 2 logical_one_def hyperfine_def)
      have "logical_one b = 2" by (simp add: 2 logical_one_def hyperfine_def)
      then show "weights_dim3 N b xs =
          Inr (map (\<lambda>k. sum_list (gather (replicate N 3)
                     (index_tuple (logical_one b) (Slice 0 2) N k) xs)) [0..<2 ^ N])"
        using assms(3) weights_loop_total[OF assms(2), of 2 "[0..<2 ^ N]" 0 2 xs]
        by (simp add: weights_dim3_def basis_levels_def 2 reshape_def prod_list_replicate)
    qed
  qed
qed

lemma weight_table_dim3:
  assumes "dim rs = 3" and "states rs \<noteq> []"
  shows "weight_table rs b =
         (case weights_dim3 (size_n rs) b (map (\<lambda>z. (cmod z)\<^sup>2) (amps (last (states rs)))) of
            Inl e \<Rightarrow> Inl e | Inr ws \<Rightarrow> Inr (Some ws))"
  using assms(1) by (simp add: weight_table_def final_probs_nonempty[OF assms(2)])

lemma level_tuples_in_range:
  assumes "t \<in> level_tuples N b k"
  shows "list_all2 (<) t (replicate N 3)"
proof -
  have one: "logical_one b < 3"
    by (simp add: logical_one_def rydberg_def hyperfine_def)
  have zero: "x < 3" if "x \<in> logical_zero b" for x
    using that by (auto simp: logical_zero_def rydberg_def ground_def hyperfine_def)
  from assms have len: "length t = N"
    and lev: "\<And>j. j < N \<Longrightarrow>
      (if bit k (N - 1 - j) then t ! j = logical_one b else t ! j \<in> logical_zero b)"
    by (simp_all add: level_tuples_def)
  have "t ! j < 3" if "j < N" for j
    using lev[OF that] one zero by (cases "bit k (N - 1 - j)") simp_all
  with len show ?thesis
    by (simp add: list_all2_conv_all_nth)
qed

section \<open>The draw and the dictionary\<close>

lemma sum_list_replicate_update:
  "j < m \<Longrightarrow> sum_list ((replicate m (0::nat))[j := v]) = v"
  by (simp add: sum_list_update)

lemma sum_list_all_zero: "\<forall>x \<in> set ws. x = (0::real) \<Longrightarrow> sum_list ws = 0"
  by (induction ws) auto

lemma first_draw_law: "multinomial_law first_draw"
  unfolding multinomial_law_def
proof (intro conjI allI impI)
  fix n ws d
  assume "first_draw n ws = Some d"
  then have n: "0 \<le> n" and ws: "ws \<noteq> []"
    and d: "d = (replicate (length ws) 0)
        [(case find (\<lambda>i. ws ! i \<noteq> 0) [0..<length ws] of
            None \<Rightarrow> length ws - 1 | Some i \<Rightarrow> i) := nat n]"
    by (auto simp: first_draw_def split: if_splits)
  define j where "j = (case find (\<lambda>i. ws ! i \<noteq> 0) [0..<length ws] of
            None \<Rightarrow> length ws - 1 | Some i \<Rightarrow> i)"
  have j: "j < length ws"
    using ws by (auto simp: j_def find_Some_iff split: option.splits)
  show "length d = length ws" by (simp add: d)
  show "int (sum_list d) = n"
    using n j by (simp add: d j_def[symmetric] sum_list_replicate_update)
  show "d ! i = 0" if one: "sum_list ws = 1" and i: "i < length ws" and z: "ws ! i = 0" for i
  proof -
    have "\<exists>x \<in> set ws. x \<noteq> 0"
    proof (rule ccontr)
      assume "\<not> (\<exists>x \<in> set ws. x \<noteq> 0)"
      then have "sum_list ws = 0" by (intro sum_list_all_zero) blast
      with one show False by simp
    qed
    then obtain i0 where "i0 < length ws" "ws ! i0 \<noteq> 0"
      by (auto simp: in_set_conv_nth)
    then have "find (\<lambda>i. ws ! i \<noteq> 0) [0..<length ws] \<noteq> None"
      by (auto simp: find_None_iff)
    then obtain i1 where f: "find (\<lambda>i. ws ! i \<noteq> 0) [0..<length ws] = Some i1" by auto
    then have "ws ! i1 \<noteq> 0" by (auto simp: find_Some_iff)
    with z have "i \<noteq> i1" by auto
    with i show ?thesis by (simp add: d f)
  qed
next
  fix n :: int and ws :: "real list"
  assume "0 \<le> n \<and> ws \<noteq> [] \<and> (\<forall>w \<in> set ws. 0 \<le> w \<and> w \<le> 1) \<and> sum_list (butlast ws) \<le> 1"
  then show "first_draw n ws \<noteq> None" by (simp add: first_draw_def)
qed

lemma update_fresh: "k \<notin> fst ` set al \<Longrightarrow> AList.update k v al = al @ [(k, v)]"
  by (induction al) auto

lemma foldl_update_fresh:
  "distinct (map f js) \<Longrightarrow> (\<forall>j \<in> set js. f j \<notin> fst ` set acc) \<Longrightarrow>
   foldl (\<lambda>d i. AList.update (f i) (g i) d) acc js = acc @ map (\<lambda>i. (f i, g i)) js"
proof (induction js arbitrary: acc)
  case Nil
  show ?case by simp
next
  case (Cons j js)
  have "foldl (\<lambda>d i. AList.update (f i) (g i) d) (acc @ [(f j, g j)]) js =
        (acc @ [(f j, g j)]) @ map (\<lambda>i. (f i, g i)) js"
    by (rule Cons.IH) (use Cons.prems in \<open>auto simp: image_iff\<close>)
  with Cons.prems show ?case by (simp add: update_fresh)
qed

lemma be_bits_inj:
  "k < 2 ^ n \<Longrightarrow> k' < 2 ^ n \<Longrightarrow> be_bits n k = be_bits n k' \<Longrightarrow> k = k'"
proof (induction n arbitrary: k k')
  case 0
  then show ?case by simp
next
  case (Suc n)
  from Suc.prems(3) have eq: "be_bits n (k div 2) = be_bits n (k' div 2)" and par: "odd k = odd k'"
    unfolding be_bits_snoc by (auto split: if_splits)
  from Suc.prems(1,2) have "k div 2 < 2 ^ n" "k' div 2 < 2 ^ n" by simp_all
  from Suc.IH[OF this eq] have "k div 2 = k' div 2" .
  with par show ?case
    by (metis odd_two_times_div_two_succ even_two_times_div_two)
qed

lemma set_be_bits: "set (be_bits n k) \<subseteq> {CHR ''0'', CHR ''1''}"
  by (induction n) auto

lemma nonzero_bound: "i \<in> set (nonzero d) \<Longrightarrow> i < length d \<and> d ! i \<noteq> 0"
  by (simp add: nonzero_def)

lemma distinct_nonzero: "distinct (nonzero d)"
  by (simp add: nonzero_def)

lemma sum_nonzero: "sum_list (map (\<lambda>i. int (d ! i)) (nonzero d)) = int (sum_list d)"
proof -
  have "sum_list (map (\<lambda>i. int (d ! i)) (nonzero d)) =
        sum_list (map (\<lambda>i. int (d ! i)) [0..<length d])"
    unfolding nonzero_def by (rule sum_list_map_filter) simp
  also have "\<dots> = sum_list (map int (map (\<lambda>i. d ! i) [0..<length d]))"
    by (simp add: comp_def)
  also have "\<dots> = int (sum_list d)"
    by (simp only: map_nth) (induction d, simp_all)
  finally show ?thesis .
qed

lemma sample_dict_eq:
  assumes "0 < N" and "length d = 2 ^ N"
  shows "sample_dict N d = map (\<lambda>i. (be_bits N i, int (d ! i))) (nonzero d)"
proof -
  have inj: "inj_on (be_bits N) (set (nonzero d))"
    by (rule inj_onI) (auto dest!: nonzero_bound intro: be_bits_inj simp: assms(2))
  have "sample_dict N d = foldl (\<lambda>acc i. AList.update (be_bits N i) (int (d ! i)) acc) [] (nonzero d)"
    unfolding sample_dict_def
    by (rule foldl_cong[OF refl refl])
       (use assms in \<open>auto dest!: nonzero_bound simp: binary_repr_be_bits\<close>)
  also have "\<dots> = [] @ map (\<lambda>i. (be_bits N i, int (d ! i))) (nonzero d)"
    by (rule foldl_update_fresh) (simp_all add: distinct_map distinct_nonzero inj)
  finally show ?thesis by simp
qed

lemma weight_table_dim2:
  assumes "dim rs = 2" and "states rs \<noteq> []"
  shows "weight_table rs b =
         (if b = basis_name rs
          then Inr (Some (if b = ''digital'' then map (\<lambda>z. (cmod z)\<^sup>2) (amps (last (states rs)))
                          else rev (map (\<lambda>z. (cmod z)\<^sup>2) (amps (last (states rs))))))
          else Inr None)"
  using assms(1) by (simp add: weight_table_def final_probs_nonempty[OF assms(2)])

lemma all_ground_example:
  assumes "multinomial_law draw"
  shows "sample_final_state draw (results [0, 0, 0, 1] 2 2 ''ground-rydberg'')
           (Some ''ground-rydberg'') 500 = Inr [(''00'', 500)]"
proof -
  let ?rs = "results [0, 0, 0, 1] 2 2 ''ground-rydberg''"
  have res: "resolve_meas_basis ?rs (Some ''ground-rydberg'') = Inr ''ground-rydberg''"
    by (simp add: resolve_meas_basis_def)
  have wt: "weight_table ?rs ''ground-rydberg'' = Inr (Some [1, 0, 0, 0])"
    by (simp add: weight_table_def final_probs_def results_def ket_def)
  have ok: "(0::int) \<le> 500 \<and> [1, 0, 0, 0::real] \<noteq> [] \<and>
      (\<forall>w \<in> set [1, 0, 0, 0::real]. 0 \<le> w \<and> w \<le> 1) \<and> sum_list (butlast [1, 0, 0, 0::real]) \<le> 1"
    by simp
  with assms have "draw 500 [1, 0, 0, 0] \<noteq> None"
    unfolding multinomial_law_def by blast
  then obtain d where d: "draw 500 [1, 0, 0, 0] = Some d" by auto
  with assms have len: "length d = length [1, 0, 0, 0::real]"
    and tot: "int (sum_list d) = 500"
    and sup: "sum_list [1, 0, 0, 0::real] = 1 \<longrightarrow>
        (\<forall>i < length [1, 0, 0, 0::real]. [1, 0, 0, 0::real] ! i = 0 \<longrightarrow> d ! i = 0)"
    unfolding multinomial_law_def by blast+
  from len obtain a b c e where abce: "d = [a, b, c, e]"
    by (auto simp: length_Suc_conv numeral_eq_Suc)
  from sup have "d ! 1 = 0" "d ! 2 = 0" "d ! 3 = 0" by simp_all
  with tot have dd: "d = [500, 0, 0, 0]" by (simp add: abce)
  have two: "(2::nat) = Suc (Suc 0)" by simp
  have "sample_dict 2 [500, 0, 0, 0] = [(''00'', 500)]"
    by (simp add: sample_dict_def nonzero_def binary_repr_def upt_rec two)
  moreover have "size_n ?rs = 2" by (simp add: results_def)
  ultimately show ?thesis
    by (simp add: sample_final_state_def res wt draw_samples_def d dd)
qed

lemma sample_dict_props:
  assumes "0 < N" and "length d = 2 ^ N"
  shows "distinct (map fst (sample_dict N d))"
    and "\<forall>(key, c) \<in> set (sample_dict N d). (\<exists>i < 2 ^ N. key = be_bits N i) \<and> 0 < c"
    and "sum_list (map snd (sample_dict N d)) = int (sum_list d)"
proof -
  have inj: "inj_on (be_bits N) (set (nonzero d))"
    by (rule inj_onI) (auto dest!: nonzero_bound intro: be_bits_inj simp: assms(2))
  have eq: "sample_dict N d = map (\<lambda>i. (be_bits N i, int (d ! i))) (nonzero d)"
    by (rule sample_dict_eq[OF assms])
  show "distinct (map fst (sample_dict N d))"
    by (simp add: eq comp_def distinct_map distinct_nonzero inj)
  show "\<forall>(key, c) \<in> set (sample_dict N d). (\<exists>i < 2 ^ N. key = be_bits N i) \<and> 0 < c"
    using assms(2) by (auto simp: eq dest!: nonzero_bound)
  show "sum_list (map snd (sample_dict N d)) = int (sum_list d)"
    by (simp add: eq comp_def sum_nonzero)
qed

lemma weight_table_length:
  assumes "weight_table rs b = Inr (Some ws)" and "b \<in> {''ground-rydberg'', ''digital''}"
    and "0 < size_n rs"
    and "dim rs = 2 \<longrightarrow> length (amps (last (states rs))) = 2 ^ size_n rs"
  shows "length ws = 2 ^ size_n rs"
proof -
  from assms(1) have st: "states rs \<noteq> []"
    by (auto simp: weight_table_def final_probs_def split: list.splits)
  define probs where "probs = map (\<lambda>z. (cmod z)\<^sup>2) (amps (last (states rs)))"
  from assms(1) consider "dim rs = 2" | "dim rs = 3"
    by (auto simp: weight_table_def final_probs_nonempty[OF st] split: if_splits)
  then show ?thesis
  proof cases
    case 1
    with assms(1,4) show ?thesis
      by (auto simp: weight_table_dim2[OF 1 st] split: if_splits)
  next
    case 2
    from assms(1) have w: "weights_dim3 (size_n rs) b probs = Inr ws"
      by (simp add: weight_table_dim3[OF 2 st] probs_def split: sum.splits)
    then have len: "length probs = 3 ^ size_n rs"
      by (auto simp: weights_dim3_def reshape_def prod_list_replicate
          split: sum.splits if_splits prod.splits)
    show ?thesis
    proof (rule weights_dim3_total[OF assms(2,3) len])
      fix lo hi
      assume "weights_dim3 (size_n rs) b probs =
         Inr (map (\<lambda>k. sum_list (gather (replicate (size_n rs) 3)
               (index_tuple (logical_one b) (Slice lo hi) (size_n rs) k) probs)) [0..<2 ^ size_n rs])"
      with w show ?thesis by auto
    qed
  qed
qed

section \<open>The claims\<close>

text \<open>
  Claim C1. For \<open>dim = 3\<close> and a resolved measurement basis \<open>b\<close> among \<^verbatim>\<open>'ground-rydberg'\<close>
  and \<^verbatim>\<open>'digital'\<close>, \<^verbatim>\<open>sample_final_state\<close> draws from a table of \<open>2 ^ N\<close> weights, \<open>N\<close> being
  the size, and for every \<open>k < 2 ^ N\<close> the weight at \<open>k\<close> is the sum of the squared
  magnitudes of exactly the entries of the final state, read as a tensor of \<open>N\<close> axes of
  extent 3 in row-major order, whose index tuple has on axis \<open>j\<close> the logical-1 level of
  \<open>b\<close> (rydberg for \<^verbatim>\<open>'ground-rydberg'\<close>, hyperfine for \<^verbatim>\<open>'digital'\<close>) where bit \<open>j\<close> of the
  width-\<open>N\<close> big-endian expansion of \<open>k\<close> is 1, and one of the two other levels where it
  is 0. The register has at least one atom and the final state has \<open>3 ^ N\<close> amplitudes, as
  the data model requires. Squared magnitudes are real numbers.
\<close>

theorem dim3_weight_of_bitstring:
  assumes "dim rs = 3" and "resolved rs mb = Some b" and "b \<in> {''ground-rydberg'', ''digital''}"
    and "states rs \<noteq> []" and "length (amps (last (states rs))) = 3 ^ size_n rs"
    and "0 < size_n rs" and "k < 2 ^ size_n rs"
  shows "\<exists>ws. weight_table rs b = Inr (Some ws) \<and>
           sample_final_state draw rs mb N_samples = draw_samples draw (size_n rs) N_samples ws \<and>
           length ws = 2 ^ size_n rs \<and>
           ws ! k = (\<Sum>t \<in> level_tuples (size_n rs) b k.
                      (cmod (amps (last (states rs)) ! ravel_index (replicate (size_n rs) 3) t))\<^sup>2)"
proof -
  define N where "N = size_n rs"
  define zs where "zs = amps (last (states rs))"
  define probs where "probs = map (\<lambda>z. (cmod z)\<^sup>2) zs"
  have len: "length probs = 3 ^ N"
    using assms(5) by (simp add: probs_def zs_def N_def)
  have N: "0 < N" "k < 2 ^ N" using assms(6,7) by (simp_all add: N_def)
  show ?thesis
  proof (rule weights_dim3_total[OF assms(3) N(1) len])
  fix lo hi
  assume zero: "{lo..<min hi 3} = logical_zero b"
    and sel: "(logical_one b, lo, hi) \<in> {(0, 1, 3), (2, 0, 2)}"
    and w: "weights_dim3 N b probs =
       Inr (map (\<lambda>k. sum_list (gather (replicate N 3)
                     (index_tuple (logical_one b) (Slice lo hi) N k) probs)) [0..<2 ^ N])"
  define ws where "ws = map (\<lambda>k. sum_list (gather (replicate N 3)
                     (index_tuple (logical_one b) (Slice lo hi) N k) probs)) [0..<2 ^ N]"
  have one: "logical_one b < 3" using sel by auto
  have wt: "weight_table rs b = Inr (Some ws)"
    unfolding weight_table_dim3[OF assms(1,4)] using w[unfolded ws_def[symmetric]]
    by (simp add: probs_def zs_def N_def)
  have res: "resolve_meas_basis rs mb = Inr b"
    using assms(2,3) by (simp add: resolve_meas_basis_Inr)
  have call: "sample_final_state draw rs mb N_samples = draw_samples draw N N_samples ws"
    by (simp add: sample_final_state_def res wt N_def)
  have "ws ! k = sum_list (gather (replicate N 3) (index_tuple (logical_one b) (Slice lo hi) N k) probs)"
    using N(2) by (simp add: ws_def)
  also have "\<dots> = (\<Sum>t \<in> level_tuples N b k. probs ! ravel_index (replicate N 3) t)"
    by (rule weight_as_sum[OF N zero one len])
  also have "\<dots> = (\<Sum>t \<in> level_tuples N b k. (cmod (zs ! ravel_index (replicate N 3) t))\<^sup>2)"
  proof (rule sum.cong[OF refl])
    fix t assume "t \<in> level_tuples N b k"
    then have "list_all2 (<) t (replicate N 3)"
      by (rule level_tuples_in_range)
    from ravel_index_less[OF this] have "ravel_index (replicate N 3) t < length zs"
      using assms(5) by (simp add: prod_list_replicate zs_def N_def)
    then show "probs ! ravel_index (replicate N 3) t = (cmod (zs ! ravel_index (replicate N 3) t))\<^sup>2"
      by (simp add: probs_def)
  qed
  finally have val: "ws ! k = (\<Sum>t \<in> level_tuples N b k. (cmod (zs ! ravel_index (replicate N 3) t))\<^sup>2)" .
  have lws: "length ws = 2 ^ N" by (simp add: ws_def)
  show ?thesis
  proof (intro exI[of _ ws] conjI)
    show "weight_table rs b = Inr (Some ws)" by (rule wt)
    show "sample_final_state draw rs mb N_samples = draw_samples draw (size_n rs) N_samples ws"
      by (rule call[unfolded N_def])
    show "length ws = 2 ^ size_n rs" by (rule lws[unfolded N_def])
    show "ws ! k = (\<Sum>t \<in> level_tuples (size_n rs) b k.
                      (cmod (amps (last (states rs)) ! ravel_index (replicate (size_n rs) 3) t))\<^sup>2)"
      by (rule val[unfolded N_def zs_def])
  qed
  qed
qed

theorem dim3_weight_of_bitstring_witness:
  "\<exists>ws. weight_table (results [1, 0, 0] 3 1 ''ground-rydberg'') ''ground-rydberg'' = Inr (Some ws) \<and>
     sample_final_state first_draw (results [1, 0, 0] 3 1 ''ground-rydberg'')
       (Some ''ground-rydberg'') 10 = draw_samples first_draw 1 10 ws \<and>
     length ws = 2 \<and>
     ws ! 1 = (\<Sum>t \<in> level_tuples 1 ''ground-rydberg'' 1. (cmod ([1, 0, 0] ! ravel_index [3] t))\<^sup>2)"
  using dim3_weight_of_bitstring[of "results [1, 0, 0] 3 1 ''ground-rydberg''"
      "Some ''ground-rydberg''" "''ground-rydberg''" 1 first_draw 10]
  by (simp add: results_def ket_def resolved_def)

text \<open>
  Claim C2. For \<open>dim = 2\<close> and a measurement basis equal to the stored addressing basis,
  \<^verbatim>\<open>sample_final_state\<close> draws from the squared magnitudes of the final amplitudes: in
  their stored order for \<^verbatim>\<open>'digital'\<close>, reversed for \<^verbatim>\<open>'ground-rydberg'\<close>, so that the
  weight of bitstring \<open>k\<close> is then the squared magnitude of amplitude \<open>2 ^ N - 1 - k\<close> (the
  final state has \<open>2 ^ N\<close> amplitudes). In particular, with size 2, addressing basis
  \<^verbatim>\<open>'ground-rydberg'\<close> and final state \<^verbatim>\<open>[0,0,0,1]\<close>, sampling 500 times in
  \<^verbatim>\<open>'ground-rydberg'\<close> returns \<^verbatim>\<open>{'00': 500}\<close>, with every generator that obeys
  \<open>multinomial_law\<close>.
\<close>

theorem dim2_weight_table:
  assumes "dim rs = 2" and "b \<in> {''ground-rydberg'', ''digital''}" and "b = basis_name rs"
    and "states rs \<noteq> []" and "length (amps (last (states rs))) = 2 ^ size_n rs"
  shows "(\<exists>ws. weight_table rs b = Inr (Some ws) \<and>
            (resolved rs mb = Some b \<longrightarrow>
               sample_final_state draw rs mb N_samples =
               draw_samples draw (size_n rs) N_samples ws) \<and>
            ws = (if b = ''digital'' then map (\<lambda>z. (cmod z)\<^sup>2) (amps (last (states rs)))
                  else rev (map (\<lambda>z. (cmod z)\<^sup>2) (amps (last (states rs))))) \<and>
            length ws = 2 ^ size_n rs \<and>
            (\<forall>k < 2 ^ size_n rs.
               ws ! k = (cmod (amps (last (states rs)) !
                          (if b = ''digital'' then k else 2 ^ size_n rs - 1 - k)))\<^sup>2)) \<and>
         (multinomial_law draw \<longrightarrow>
            sample_final_state draw (results [0, 0, 0, 1] 2 2 ''ground-rydberg'')
              (Some ''ground-rydberg'') 500 = Inr [(''00'', 500)])"
proof -
  define zs where "zs = amps (last (states rs))"
  define ws where "ws = (if b = ''digital'' then map (\<lambda>z. (cmod z)\<^sup>2) zs
                         else rev (map (\<lambda>z. (cmod z)\<^sup>2) zs))"
  have len: "length zs = 2 ^ size_n rs" using assms(5) by (simp add: zs_def)
  have wt: "weight_table rs b = Inr (Some ws)"
    using assms(3) by (simp add: weight_table_dim2[OF assms(1,4)] ws_def zs_def)
  have call: "sample_final_state draw rs mb N_samples = draw_samples draw (size_n rs) N_samples ws"
    if "resolved rs mb = Some b"
  proof -
    from that assms(2) have "resolve_meas_basis rs mb = Inr b"
      by (simp add: resolve_meas_basis_Inr)
    then show ?thesis by (simp add: sample_final_state_def wt)
  qed
  have val: "ws ! k = (cmod (zs ! (if b = ''digital'' then k else 2 ^ size_n rs - 1 - k)))\<^sup>2"
    if "k < 2 ^ size_n rs" for k
  proof (cases "b = ''digital''")
    case True
    with that len show ?thesis by (simp add: ws_def)
  next
    case False
    have "2 ^ size_n rs - Suc k < length zs" using that len by simp
    with False that len show ?thesis by (simp add: ws_def rev_nth)
  qed
  have lws: "length ws = 2 ^ size_n rs" by (simp add: ws_def len)
  have "\<exists>ws. weight_table rs b = Inr (Some ws) \<and>
            (resolved rs mb = Some b \<longrightarrow>
               sample_final_state draw rs mb N_samples =
               draw_samples draw (size_n rs) N_samples ws) \<and>
            ws = (if b = ''digital'' then map (\<lambda>z. (cmod z)\<^sup>2) (amps (last (states rs)))
                  else rev (map (\<lambda>z. (cmod z)\<^sup>2) (amps (last (states rs))))) \<and>
            length ws = 2 ^ size_n rs \<and>
            (\<forall>k < 2 ^ size_n rs.
               ws ! k = (cmod (amps (last (states rs)) !
                          (if b = ''digital'' then k else 2 ^ size_n rs - 1 - k)))\<^sup>2)"
  proof (intro exI[of _ ws] conjI impI allI)
    show "weight_table rs b = Inr (Some ws)" by (rule wt)
    show "sample_final_state draw rs mb N_samples = draw_samples draw (size_n rs) N_samples ws"
      if "resolved rs mb = Some b" by (rule call[OF that])
    show "ws = (if b = ''digital'' then map (\<lambda>z. (cmod z)\<^sup>2) (amps (last (states rs)))
                  else rev (map (\<lambda>z. (cmod z)\<^sup>2) (amps (last (states rs)))))"
      by (simp add: ws_def zs_def)
    show "length ws = 2 ^ size_n rs" by (rule lws)
    show "ws ! k = (cmod (amps (last (states rs)) !
                          (if b = ''digital'' then k else 2 ^ size_n rs - 1 - k)))\<^sup>2"
      if "k < 2 ^ size_n rs" for k by (rule val[OF that, unfolded zs_def])
  qed
  moreover have "multinomial_law draw \<longrightarrow>
            sample_final_state draw (results [0, 0, 0, 1] 2 2 ''ground-rydberg'')
              (Some ''ground-rydberg'') 500 = Inr [(''00'', 500)]"
    by (rule impI) (rule all_ground_example)
  ultimately show ?thesis by (rule conjI)
qed

theorem dim2_weight_table_witness:
  "sample_final_state first_draw (results [0, 0, 0, 1] 2 2 ''ground-rydberg'')
     (Some ''ground-rydberg'') 500 = Inr [(''00'', 500)]"
proof -
  let ?rs = "results [0, 0, 0, 1] 2 2 ''ground-rydberg''"
  have h: "dim ?rs = 2" "''ground-rydberg'' \<in> {''ground-rydberg'', ''digital''}"
    "''ground-rydberg'' = basis_name ?rs" "states ?rs \<noteq> []"
    "length (amps (last (states ?rs))) = 2 ^ size_n ?rs"
    by (simp_all add: results_def ket_def)
  show ?thesis
    by (rule dim2_weight_table[OF h, THEN conjunct2, THEN mp, OF first_draw_law])
qed

text \<open>
  Claim C3. For \<open>dim = 2\<close>, when the resolved measurement basis differs from the stored
  addressing basis, \<^verbatim>\<open>sample_final_state\<close> returns exactly \<^verbatim>\<open>{'0'*size: N_samples}\<close>, for
  every final state and without a draw: the result mentions neither the amplitudes nor
  the generator. Line 102 runs before the branch, so a final state has to exist.
\<close>

theorem mismatched_basis_all_zero:
  assumes "dim rs = 2" and "resolved rs mb = Some b" and "b \<in> {''ground-rydberg'', ''digital''}"
    and "b \<noteq> basis_name rs" and "states rs \<noteq> []"
  shows "sample_final_state draw rs mb N_samples =
         Inr [(replicate (size_n rs) CHR ''0'', N_samples)]"
proof -
  have "resolve_meas_basis rs mb = Inr b"
    using assms(2,3) by (simp add: resolve_meas_basis_Inr)
  moreover have "weight_table rs b = Inr None"
    using assms(1,4) by (simp add: weight_table_def final_probs_nonempty[OF assms(5)])
  ultimately show ?thesis
    by (simp add: sample_final_state_def)
qed

theorem mismatched_basis_all_zero_witness:
  "sample_final_state first_draw (results [0, 0, 0, 1] 2 2 ''ground-rydberg'') (Some ''digital'') 500
   = Inr [(''00'', 500)]"
  using mismatched_basis_all_zero[of "results [0, 0, 0, 1] 2 2 ''ground-rydberg''"
      "Some ''digital''" "''digital''" first_draw 500]
  by (simp add: results_def resolved_def numeral_2_eq_2)

text \<open>
  Claim C4, amended. The claim says that every count of a returned mapping is positive. The
  early return of line 110 gives the single entry \<^verbatim>\<open>'0'*size: int(N_samples)\<close> whatever
  \<^verbatim>\<open>N_samples\<close> is, so that with \<^verbatim>\<open>N_samples = 0\<close> a count of zero is returned. What
  holds: for a register of at least one atom (and, for \<open>dim = 2\<close>, a final state of
  \<open>2 ^ size\<close> amplitudes), every successful call and every outcome of the draw, the keys
  of the returned mapping are distinct, each is the width-\<open>size\<close> big-endian expansion of
  a number below \<open>2 ^ size\<close> (a string of \<open>size\<close> characters 0 and 1), the counts sum to
  \<^verbatim>\<open>N_samples\<close>, and every count is positive when the mapping comes from the draw or
  when \<^verbatim>\<open>N_samples\<close> is positive.
\<close>

theorem sample_mapping_shape:
  assumes "multinomial_law draw" and "0 < size_n rs"
    and "dim rs = 2 \<longrightarrow> length (amps (last (states rs))) = 2 ^ size_n rs"
    and "sample_final_state draw rs mb N_samples = Inr m"
  shows "distinct (map fst m) \<and>
         (\<forall>(key, c) \<in> set m.
            (\<exists>i < 2 ^ size_n rs. key = be_bits (size_n rs) i) \<and>
            length key = size_n rs \<and> set key \<subseteq> {CHR ''0'', CHR ''1''} \<and>
            (0 < N_samples \<or> \<not> (dim rs = 2 \<and> resolved rs mb \<noteq> Some (basis_name rs)) \<longrightarrow> 0 < c)) \<and>
         sum_list (map snd m) = N_samples"
proof -
  from assms(4) obtain b where res: "resolve_meas_basis rs mb = Inr b"
    by (auto simp: sample_final_state_def split: sum.splits)
  then have b: "resolved rs mb = Some b" "b \<in> {''ground-rydberg'', ''digital''}"
    by (simp_all add: resolve_meas_basis_Inr)
  from assms(4) res consider
      (early) "weight_table rs b = Inr None" "m = [(replicate (size_n rs) CHR ''0'', N_samples)]"
    | (drawn) ws d where "weight_table rs b = Inr (Some ws)" "draw N_samples ws = Some d"
        "m = sample_dict (size_n rs) d"
    by (auto simp: sample_final_state_def draw_samples_def split: sum.splits option.splits)
  then show ?thesis
  proof cases
    case early
    have ex: "\<exists>i < 2 ^ size_n rs. replicate (size_n rs) CHR ''0'' = be_bits (size_n rs) i"
      by (rule exI[of _ 0]) (simp add: be_bits_zero)
    have mis: "dim rs = 2 \<and> b \<noteq> basis_name rs"
      using early(1)
      by (auto simp: weight_table_def split: sum.splits if_splits)
    show ?thesis
      using b(1) mis ex by (auto simp: early(2) dest: subsetD[OF set_be_bits])
  next
    case drawn
    from assms(1) drawn(2) have d: "length d = length ws" "int (sum_list d) = N_samples"
      unfolding multinomial_law_def by blast+
    have len: "length d = 2 ^ size_n rs"
      using weight_table_length[OF drawn(1) b(2) assms(2,3)] d(1) by simp
    note props = sample_dict_props[OF assms(2) len]
    have keys: "length key = size_n rs \<and> set key \<subseteq> {CHR ''0'', CHR ''1''}"
      if "\<exists>i < 2 ^ size_n rs. key = be_bits (size_n rs) i" for key
      using that set_be_bits by auto
    show ?thesis
      unfolding drawn(3) using props keys d(2) by fastforce
  qed
qed

theorem sample_mapping_shape_counterexample:
  "sample_final_state first_draw (results [0, 0, 0, 1] 2 2 ''ground-rydberg'') (Some ''digital'') 0
   = Inr [(''00'', 0)]"
  by (simp add: sample_final_state_def resolve_meas_basis_def weight_table_def final_probs_def
      results_def numeral_2_eq_2)

theorem sample_mapping_shape_witness:
  "distinct (map fst [(''00'', 500::int)]) \<and> sum_list (map snd [(''00'', 500::int)]) = 500"
proof -
  let ?rs = "results [0, 0, 0, 1] 2 2 ''ground-rydberg''"
  have h: "0 < size_n ?rs" "dim ?rs = 2 \<longrightarrow> length (amps (last (states ?rs))) = 2 ^ size_n ?rs"
    by (simp_all add: results_def ket_def)
  have r: "sample_final_state first_draw ?rs (Some ''ground-rydberg'') 500 = Inr [(''00'', 500)]"
    by (rule all_ground_example[OF first_draw_law])
  from sample_mapping_shape[OF first_draw_law h r] show ?thesis by simp
qed

text \<open>
  Claim C5. For \<open>dim = 3\<close> and a measurement basis among \<^verbatim>\<open>'ground-rydberg'\<close> and
  \<^verbatim>\<open>'digital'\<close>, the \<open>2 ^ N\<close> weights sum to the sum of the squared magnitudes of all
  \<open>3 ^ N\<close> amplitudes of the final state, hence to 1 when the final state is normalized:
  on each axis the logical-1 index and the two logical-0 indices split the three levels
  (\<open>weights_partition\<close>). The register has at least one atom and the final state has
  \<open>3 ^ N\<close> amplitudes; squared magnitudes are real numbers.
\<close>

theorem dim3_weights_sum:
  assumes "dim rs = 3" and "b \<in> {''ground-rydberg'', ''digital''}"
    and "states rs \<noteq> []" and "length (amps (last (states rs))) = 3 ^ size_n rs"
    and "0 < size_n rs"
  shows "\<exists>ws. weight_table rs b = Inr (Some ws) \<and> length ws = 2 ^ size_n rs \<and>
           sum_list ws = (\<Sum>z \<leftarrow> amps (last (states rs)). (cmod z)\<^sup>2) \<and>
           ((\<Sum>z \<leftarrow> amps (last (states rs)). (cmod z)\<^sup>2) = 1 \<longrightarrow> sum_list ws = 1)"
proof -
  define N where "N = size_n rs"
  define probs where "probs = map (\<lambda>z. (cmod z)\<^sup>2) (amps (last (states rs)))"
  have len: "length probs = 3 ^ N"
    using assms(4) by (simp add: probs_def N_def)
  have N: "0 < N" using assms(5) by (simp add: N_def)
  show ?thesis
  proof (rule weights_dim3_total[OF assms(2) N len])
  fix lo hi
  assume sel: "(logical_one b, lo, hi) \<in> {(0, 1, 3), (2, 0, 2)}"
    and w: "weights_dim3 N b probs =
       Inr (map (\<lambda>k. sum_list (gather (replicate N 3)
                     (index_tuple (logical_one b) (Slice lo hi) N k) probs)) [0..<2 ^ N])"
  define ws where "ws = map (\<lambda>k. sum_list (gather (replicate N 3)
                     (index_tuple (logical_one b) (Slice lo hi) N k) probs)) [0..<2 ^ N]"
  have wt: "weight_table rs b = Inr (Some ws)"
    unfolding weight_table_dim3[OF assms(1,3)] using w[unfolded ws_def[symmetric]]
    by (simp add: probs_def N_def)
  have "ws = map (\<lambda>k. sum_list (gather (replicate N 3)
           (map (\<lambda>v. if v = CHR ''0'' then Slice lo hi else Idx (logical_one b)) (be_bits N k)) probs))
         [0..<2 ^ N]"
    unfolding ws_def by (rule map_cong[OF refl]) (simp add: index_tuple_be_bits[OF N])
  then have tot: "sum_list ws = sum_list probs"
    by (simp only: weights_partition[OF sel len])
  have lws: "length ws = 2 ^ N" by (simp add: ws_def)
  show ?thesis
  proof (intro exI[of _ ws] conjI impI)
    show "weight_table rs b = Inr (Some ws)" by (rule wt)
    show "length ws = 2 ^ size_n rs" by (rule lws[unfolded N_def])
    show s: "sum_list ws = (\<Sum>z \<leftarrow> amps (last (states rs)). (cmod z)\<^sup>2)"
      by (rule tot[unfolded probs_def])
    show "sum_list ws = 1" if "(\<Sum>z \<leftarrow> amps (last (states rs)). (cmod z)\<^sup>2) = 1"
      using s that by simp
  qed
  qed
qed

theorem dim3_weights_sum_witness:
  "\<exists>ws. weight_table (results [0, 1, 0] 3 1 ''ground-rydberg'') ''digital'' = Inr (Some ws) \<and>
     length ws = 2 \<and> sum_list ws = 1"
  using dim3_weights_sum[of "results [0, 1, 0] 3 1 ''ground-rydberg''" "''digital''"]
  by (simp add: results_def ket_def)

text \<open>
  Claim C6. \<^verbatim>\<open>sample_final_state\<close> raises its \<^verbatim>\<open>ValueError\<close>, before any probability is
  computed, exactly when (a) no basis argument is supplied and the stored default
  measurement basis is unset, or (b) the resolved basis is not one of \<^verbatim>\<open>'ground-rydberg'\<close>
  and \<^verbatim>\<open>'digital'\<close>. The two raises of lines 90 and 97 are told apart; each happens in
  exactly its case, whatever the states (an empty trajectory included), the number of
  samples and the generator are. A \<^verbatim>\<open>ValueError\<close> that numpy raises later, in
  \<^verbatim>\<open>reshape\<close> or in the draw, is the separate value \<open>ValueError In_numpy\<close>.
\<close>

theorem basis_value_errors:
  "(sample_final_state draw rs mb N_samples = Inl (ValueError Undefined_basis) \<longleftrightarrow>
      mb = None \<and> meas_basis rs = None) \<and>
   (sample_final_state draw rs mb N_samples = Inl (ValueError Unknown_basis) \<longleftrightarrow>
      (\<exists>b. resolved rs mb = Some b \<and> b \<notin> {''ground-rydberg'', ''digital''}))"
proof (cases "resolve_meas_basis rs mb")
  case (Inl e)
  then have "sample_final_state draw rs mb N_samples = Inl e"
    by (simp add: sample_final_state_def)
  with Inl show ?thesis
    by (auto simp: resolve_meas_basis_Inl resolved_def)
next
  case (Inr b)
  from sample_after_resolve_error[OF Inr]
  have "sample_final_state draw rs mb N_samples \<noteq> Inl (ValueError Undefined_basis)"
       "sample_final_state draw rs mb N_samples \<noteq> Inl (ValueError Unknown_basis)"
    by fastforce+
  moreover from Inr have "resolved rs mb = Some b" "b \<in> {''ground-rydberg'', ''digital''}"
    by (simp_all add: resolve_meas_basis_Inr)
  ultimately show ?thesis
    by (auto simp: resolved_def)
qed

theorem basis_value_errors_witness:
  "sample_final_state first_draw (results [] 2 2 ''digital'') None 10 =
     Inl (ValueError Undefined_basis) \<and>
   sample_final_state first_draw (results [] 2 2 ''digital'') (Some ''all'') 10 =
     Inl (ValueError Unknown_basis)"
  using basis_value_errors[of first_draw "results [] 2 2 ''digital''" None 10]
    basis_value_errors[of first_draw "results [] 2 2 ''digital''" "Some ''all''" 10]
  by (simp add: results_def resolved_def)

text \<open>
  Claim C7. The claim says that \<^verbatim>\<open>expect\<close> raises \<^verbatim>\<open>TypeError\<close> if and only if \<^verbatim>\<open>obs_list\<close>
  is not an array-like sequence, and that a tuple of observables is accepted; the docstring
  of \<^verbatim>\<open>expect\<close> types \<^verbatim>\<open>obs_list\<close> as array-like too. The test of line 57,
  \<^verbatim>\<open>isinstance(obs_list, (list, np.ndarray))\<close>, admits only a list or an \<^verbatim>\<open>np.ndarray\<close>: on
  the tuple holding one observable of the right shape the code raises \<^verbatim>\<open>TypeError\<close>,
  while it accepts the same observable in a list.
\<close>

theorem expect_refuses_tuple:
  "array_like (PyTuple [obs_of_shape [2, 2]]) \<and>
   expect strict_Qobj zero_expect (results [1, 0] 2 1 ''digital'') (PyTuple [obs_of_shape [2, 2]])
     = Inl TypeError \<and>
   expect strict_Qobj zero_expect (results [1, 0] 2 1 ''digital'') (PyList [obs_of_shape [2, 2]])
     = Inr [[0]]"
  by (simp add: expect_def expect_values_def results_def ket_def obs_of_shape_def strict_Qobj_def
      zero_expect_def)

text \<open>
  Claim C8. On a list or an \<^verbatim>\<open>np.ndarray\<close> of observables, \<^verbatim>\<open>expect\<close> raises the
  \<^verbatim>\<open>ValueError\<close> of line 63 whenever some observable has a shape other than
  \<^verbatim>\<open>(dim**size, dim**size)\<close>, whatever \<^verbatim>\<open>qutip.expect\<close> would compute (it is not called);
  when every observable has that shape, it returns one row per observable, in order, and
  the row of an observable holds, for each stored state in order, the value of
  \<^verbatim>\<open>qutip.expect\<close> on the observable wrapped with the block dimensions of the first
  state. The trajectory has at least one state, whose block dimensions multiply to
  \<open>dim ^ size\<close>, as the data model requires, so that \<^verbatim>\<open>qutip.Qobj\<close> accepts every
  observable of the right shape (\<open>qobj_law\<close>).
\<close>

theorem expect_shape_check:
  assumes "obs_list = PyList os \<or> obs_list = PyNdarray os" and "states rs \<noteq> []"
    and "qobj_law qutip_Qobj"
    and "prod_list (fst (dims (hd (states rs)))) = dim rs ^ size_n rs"
  shows "((\<exists>obs \<in> set os. shape obs \<noteq> [dim rs ^ size_n rs, dim rs ^ size_n rs]) \<longrightarrow>
            expect qutip_Qobj qutip_expect rs obs_list = Inl (ValueError Incompatible_shape)) \<and>
         ((\<forall>obs \<in> set os. shape obs = [dim rs ^ size_n rs, dim rs ^ size_n rs]) \<longrightarrow>
            (\<exists>r. expect qutip_Qobj qutip_expect rs obs_list = Inr r \<and>
                 r = map (\<lambda>obs. map (qutip_expect
                            \<lparr>operand = obs,
                              op_dims = (fst (dims (hd (states rs))), fst (dims (hd (states rs))))\<rparr>)
                          (states rs)) os \<and>
                 length r = length os \<and>
                 (\<forall>row \<in> set r. length row = length (states rs))))"
proof -
  have e: "expect qutip_Qobj qutip_expect rs obs_list = expect_values qutip_Qobj qutip_expect rs os"
    using assms(1) by (auto simp: expect_def)
  show ?thesis
    unfolding e expect_values_def
    by (auto simp: qobj_list_bad_shape[OF assms(2-4)] qobj_list_good_shape[OF assms(2-4)] comp_def)
qed

theorem expect_shape_check_witness:
  "expect strict_Qobj zero_expect (results [1, 0] 2 1 ''digital'')
     (PyList [obs_of_shape [2, 2], obs_of_shape [2]]) = Inl (ValueError Incompatible_shape) \<and>
   expect strict_Qobj zero_expect (results [1, 0] 2 1 ''digital'') (PyNdarray [obs_of_shape [2, 2]])
     = Inr [[zero_expect \<lparr>operand = obs_of_shape [2, 2], op_dims = ([2], [2])\<rparr> (ket [1, 0])]]"
proof -
  let ?rs = "results [1, 0] 2 1 ''digital''"
  have h: "states ?rs \<noteq> []" "prod_list (fst (dims (hd (states ?rs)))) = dim ?rs ^ size_n ?rs"
    by (simp_all add: results_def ket_def)
  from expect_shape_check[OF disjI1[OF refl] h(1) strict_Qobj_law h(2),
      of "[obs_of_shape [2, 2], obs_of_shape [2]]" zero_expect]
  have a: "expect strict_Qobj zero_expect ?rs (PyList [obs_of_shape [2, 2], obs_of_shape [2]])
      = Inl (ValueError Incompatible_shape)"
    by (simp add: results_def ket_def obs_of_shape_def numeral_2_eq_2)
  from expect_shape_check[OF disjI2[OF refl] h(1) strict_Qobj_law h(2),
      of "[obs_of_shape [2, 2]]" zero_expect]
  have b: "expect strict_Qobj zero_expect ?rs (PyNdarray [obs_of_shape [2, 2]])
     = Inr [[zero_expect \<lparr>operand = obs_of_shape [2, 2], op_dims = ([2], [2])\<rparr> (ket [1, 0])]]"
    by (simp add: results_def ket_def obs_of_shape_def numeral_2_eq_2)
  from a b show ?thesis by (rule conjI)
qed

text \<open>
  Claim C9. When \<open>dim\<close> is neither 2 nor 3, \<^verbatim>\<open>sample_final_state\<close> called with a valid
  resolvable measurement basis raises \<^verbatim>\<open>NotImplementedError\<close> and returns no mapping. Line
  102 runs before the test on \<open>dim\<close>, so a final state has to exist.
\<close>

theorem unsupported_dimension:
  assumes "dim rs \<noteq> 2" and "dim rs \<noteq> 3" and "resolved rs mb = Some b"
    and "b \<in> {''ground-rydberg'', ''digital''}" and "states rs \<noteq> []"
  shows "sample_final_state draw rs mb N_samples = Inl NotImplementedError"
proof -
  have "resolve_meas_basis rs mb = Inr b"
    using assms(3,4) by (simp add: resolve_meas_basis_Inr)
  moreover have "weight_table rs b = Inl NotImplementedError"
    using assms(1,2) by (simp add: weight_table_def final_probs_nonempty[OF assms(5)])
  ultimately show ?thesis
    by (simp add: sample_final_state_def)
qed

theorem unsupported_dimension_witness:
  "sample_final_state first_draw (results [1, 0, 0, 0] 4 1 ''digital'') (Some ''digital'') 10
   = Inl NotImplementedError"
  using unsupported_dimension[of "results [1, 0, 0, 0] 4 1 ''digital''"
      "Some ''digital''" "''digital''" first_draw 10]
  by (simp add: results_def resolved_def)

text \<open>
  Claim C10. For \<open>dim = 3\<close> the weight table does not depend on the stored addressing
  basis: two result sets that differ in \<open>basis_name\<close> only have the same weight table for
  the same measurement basis, the early return of the mismatch (\<open>Inr None\<close>) never
  happens, and the whole call gives the same result with the same generator.
\<close>

theorem dim3_ignores_basis_name:
  assumes "dim rs = 3"
  shows "weight_table (rs\<lparr>basis_name := bn\<rparr>) b = weight_table rs b \<and>
         weight_table rs b \<noteq> Inr None \<and>
         sample_final_state draw (rs\<lparr>basis_name := bn\<rparr>) mb N_samples =
         sample_final_state draw rs mb N_samples"
proof -
  have wt: "weight_table (rs\<lparr>basis_name := bn\<rparr>) b = weight_table rs b" for b
    using assms by (simp add: weight_table_def final_probs_basis_name split: sum.splits)
  have "weight_table rs b \<noteq> Inr None"
    using assms by (simp add: weight_table_def split: sum.splits)
  moreover have "resolve_meas_basis (rs\<lparr>basis_name := bn\<rparr>) mb = resolve_meas_basis rs mb"
    by (cases mb) (simp_all add: resolve_meas_basis_def)
  ultimately show ?thesis
    by (simp add: sample_final_state_def wt split: sum.splits option.splits)
qed

theorem dim3_ignores_basis_name_witness:
  "weight_table (results [0, 1, 0] 3 1 ''ground-rydberg'') ''digital'' =
   weight_table (results [0, 1, 0] 3 1 ''all'') ''digital''"
  using dim3_ignores_basis_name[of "results [0, 1, 0] 3 1 ''all''" "''ground-rydberg''" "''digital''"]
  by (simp add: results_def)

end
